theory Spec2Isabelle
  imports Main "HOL-Library.AList"
begin

section \<open>Values, patch operations and the object store\<close>

text \<open>
  The values carried by operations and merge documents. A mapping is an association list
  in iteration order; a float is given by mantissa and binary exponent. The functions
  below only ever read values and pass them on.
\<close>

datatype json =
    JNull
  | JBool bool
  | JInt int
  | JFloat int int
  | JStr string
  | JList "json list"
  | JDict "(string \<times> json) list"

text \<open>
  The three operation classes of the request module: \<open>PatchAddReplaceTest(op, path, value)\<close>,
  \<open>PatchRemove(op, path)\<close> and \<open>PatchMoveCopy(op, path, from_)\<close>. The field \<open>op\<close> is a
  string, compared with string literals as in the source.
\<close>

datatype PatchOperation =
    PatchAddReplaceTest string string json
  | PatchRemove string string
  | PatchMoveCopy string string string

fun op_of :: "PatchOperation \<Rightarrow> string" where
  "op_of (PatchAddReplaceTest k p v) = k"
| "op_of (PatchRemove k p) = k"
| "op_of (PatchMoveCopy k p f) = k"

fun path_of :: "PatchOperation \<Rightarrow> string" where
  "path_of (PatchAddReplaceTest k p v) = p"
| "path_of (PatchRemove k p) = p"
| "path_of (PatchMoveCopy k p f) = p"

text \<open>\<open>from_of\<close> is \<open>Some\<close> exactly when \<open>hasattr(operation, "from_")\<close> holds.\<close>

fun from_of :: "PatchOperation \<Rightarrow> string option" where
  "from_of (PatchMoveCopy k p f) = Some f"
| "from_of _ = None"

text \<open>\<open>value_of\<close> is \<open>None\<close> where reading \<open>operation.value\<close> raises AttributeError.\<close>

fun value_of :: "PatchOperation \<Rightarrow> json option" where
  "value_of (PatchAddReplaceTest k p v) = Some v"
| "value_of _ = None"

text \<open>The attribute assignment \<open>operation.path = s\<close>.\<close>

fun set_path :: "PatchOperation \<Rightarrow> string \<Rightarrow> PatchOperation" where
  "set_path (PatchAddReplaceTest k p v) s = PatchAddReplaceTest k s v"
| "set_path (PatchRemove k p) s = PatchRemove k s"
| "set_path (PatchMoveCopy k p f) s = PatchMoveCopy k s f"

text \<open>
  The literal constraints the operation classes declare: a well-formed operation has one
  of the kinds of its class.
\<close>

fun wf_operation :: "PatchOperation \<Rightarrow> bool" where
  "wf_operation (PatchAddReplaceTest k p v) = (k \<in> set [''add'', ''replace'', ''test''])"
| "wf_operation (PatchRemove k p) = (k = ''remove'')"
| "wf_operation (PatchMoveCopy k p f) = (k \<in> set [''move'', ''copy''])"

text \<open>
  Operation objects are mutable and shared by reference, so they live in a store: an
  address is an index into the list of all operation objects allocated so far.
\<close>

type_synonym addr = nat
type_synonym store = "PatchOperation list"

definition alloc :: "store \<Rightarrow> PatchOperation \<Rightarrow> addr \<times> store" where
  "alloc h x = (length h, h @ [x])"

datatype error = UnboundLocalError | AttributeError

section \<open>Path descriptors and the command set\<close>

text \<open>
  Modelled from the spec: the class \<open>ElasticPath\<close> of \<open>models/patch.py\<close> is not among the
  sources. The record has the attributes the functions below read (the descriptor of
  section 3 of the specification); how a path string is resolved into a descriptor is a
  parameter \<open>EP\<close> of every function that builds one.
\<close>

record ElasticPath =
  path :: string
  nest :: "string option"
  key :: "string option"
  index :: "int option"
  es_nest :: string
  es_location :: string
  es_path :: string
  variable_name :: string
  param_key :: string

text \<open>
  Modelled from the spec: the class \<open>ESCommandSet\<close> of \<open>models/patch.py\<close> is not among the
  sources. It is an insertion-ordered collection of statement strings with set semantics:
  adding a statement that is already present changes nothing. Iterating yields the
  statements in insertion order.
\<close>

type_synonym ESCommandSet = "string list"

definition ESCommandSet_add :: "ESCommandSet \<Rightarrow> string \<Rightarrow> ESCommandSet" where
  "ESCommandSet_add commands s = (if s \<in> set commands then commands else commands @ [s])"

subsection \<open>Truth values and string conversion of attribute values\<close>

definition truthy_str :: "string option \<Rightarrow> bool" where
  "truthy_str s = (case s of None \<Rightarrow> False | Some t \<Rightarrow> t \<noteq> [])"

definition truthy_int :: "int option \<Rightarrow> bool" where
  "truthy_int i = (case i of None \<Rightarrow> False | Some n \<Rightarrow> n \<noteq> 0)"

definition digit_char :: "nat \<Rightarrow> char" where
  "digit_char d = char_of (48 + d)"

fun str_nat :: "nat \<Rightarrow> string" where
  "str_nat n = (if n < 10 then [digit_char n] else str_nat (n div 10) @ [digit_char (n mod 10)])"

definition str_int :: "int \<Rightarrow> string" where
  "str_int i = (if i < 0 then CHR ''-'' # str_nat (nat (- i)) else str_nat (nat i))"

definition fmt_str :: "string option \<Rightarrow> string" where
  "fmt_str s = (case s of None \<Rightarrow> ''None'' | Some t \<Rightarrow> t)"

definition fmt_int :: "int option \<Rightarrow> string" where
  "fmt_int i = (case i of None \<Rightarrow> ''None'' | Some n \<Rightarrow> str_int n)"

text \<open>The single quote character of the generated script text.\<close>

definition sq :: string where
  "sq = [CHR 0x27]"

section \<open>Guard emission: \<open>check_commands\<close>\<close>

definition nest_check :: "ElasticPath \<Rightarrow> string" where
  "nest_check p =
     ''if (!ctx._source.containsKey('' @ sq @ fmt_str (nest p) @ sq @ ''))''
     @ ''{Debug.explain('' @ sq @ fmt_str (nest p) @ '' does not exist'' @ sq @ '');}''"

definition key_check :: "ElasticPath \<Rightarrow> string" where
  "key_check p =
     ''if (!ctx._source'' @ es_nest p @ ''.containsKey('' @ sq @ fmt_str (key p) @ sq @ ''))''
     @ ''{Debug.explain('' @ sq @ fmt_str (key p) @ ''  does not exist in ''
     @ fmt_str (nest p) @ sq @ '');}''"

definition index_check :: "ElasticPath \<Rightarrow> string" where
  "index_check p =
     ''if ((ctx._source'' @ es_location p @ '' instanceof ArrayList''
     @ '' && ctx._source'' @ es_location p @ ''.size() < '' @ fmt_int (index p) @ '')''
     @ '' || (!(ctx._source'' @ es_location p @ '' instanceof ArrayList)''
     @ '' && !ctx._source'' @ es_location p @ ''.containsKey('' @ sq @ fmt_int (index p)
     @ sq @ '')))''
     @ ''{Debug.explain('' @ sq @ path p @ '' does not exist'' @ sq @ '');}''"

definition check_commands ::
  "ESCommandSet \<Rightarrow> string \<Rightarrow> ElasticPath \<Rightarrow> bool \<Rightarrow> ESCommandSet" where
  "check_commands commands opk p from_path =
     (let c1 = (if truthy_str (nest p) then ESCommandSet_add commands (nest_check p)
                else commands);
          c2 = (if truthy_int (index p) \<or> opk \<in> set [''remove'', ''replace'', ''test'']
                   \<or> from_path
                then ESCommandSet_add c1 (key_check p) else c1);
          c3 = (if from_path \<and> index p \<noteq> None
                then ESCommandSet_add c2 (index_check p) else c2)
      in c3)"

section \<open>Mutators\<close>

definition remove_statement :: "ElasticPath \<Rightarrow> string" where
  "remove_statement p =
     (if index p \<noteq> None
      then ''def '' @ variable_name p @ '' = ctx._source'' @ es_location p
           @ ''.remove('' @ fmt_int (index p) @ '');''
      else ''def '' @ variable_name p @ '' = ctx._source'' @ es_nest p
           @ ''.remove('' @ sq @ fmt_str (key p) @ sq @ '');'')"

definition remove_commands :: "ESCommandSet \<Rightarrow> ElasticPath \<Rightarrow> ESCommandSet" where
  "remove_commands commands p = ESCommandSet_add commands (remove_statement p)"

definition add_statement :: "string \<Rightarrow> ElasticPath \<Rightarrow> string \<Rightarrow> string" where
  "add_statement opk p v =
     (if index p \<noteq> None
      then ''if (ctx._source'' @ es_location p @ '' instanceof ArrayList)''
           @ ''{ctx._source'' @ es_location p @ ''.''
           @ (if opk \<in> set [''add'', ''move''] then ''add'' else ''set'')
           @ ''('' @ fmt_int (index p) @ '', '' @ v @ '')}''
           @ ''else{ctx._source.'' @ es_path p @ '' = '' @ v @ ''}''
      else ''ctx._source.'' @ es_path p @ '' = '' @ v @ '';'')"

type_synonym params = "(string \<times> json) list"

definition add_commands ::
  "ESCommandSet \<Rightarrow> PatchOperation \<Rightarrow> ElasticPath \<Rightarrow> ElasticPath option \<Rightarrow> params
     \<Rightarrow> error + (ESCommandSet \<times> params)" where
  "add_commands commands operation p from_path ps =
     (case from_path of
        Some fp \<Rightarrow>
          Inr (ESCommandSet_add commands
                 (add_statement (op_of operation) p
                    (if op_of operation = ''move'' then variable_name fp
                     else ''ctx._source.'' @ es_path fp)),
               ps)
      | None \<Rightarrow>
          (case value_of operation of
             None \<Rightarrow> Inl AttributeError
           | Some v \<Rightarrow>
               Inr (ESCommandSet_add commands
                      (add_statement (op_of operation) p (''params.'' @ param_key p)),
                    AList.update (param_key p) v ps)))"

text \<open>
  \<open>json_value\<close> is a property of the request class (the display form of the value); it
  is the parameter \<open>jv\<close>.
\<close>

definition test_statement :: "string \<Rightarrow> ElasticPath \<Rightarrow> string" where
  "test_statement shown p =
     ''if (ctx._source.'' @ es_path p @ '' != '' @ ''params.'' @ param_key p @ '')''
     @ ''{Debug.explain('' @ sq @ ''Test failed `'' @ path p @ ''` | ''
     @ shown @ '' != '' @ sq @ '' + ctx._source.'' @ es_path p @ '');}''"

definition test_commands ::
  "(json \<Rightarrow> string) \<Rightarrow> ESCommandSet \<Rightarrow> PatchOperation \<Rightarrow> ElasticPath \<Rightarrow> params
     \<Rightarrow> error + (ESCommandSet \<times> params)" where
  "test_commands jv commands operation p ps =
     (case value_of operation of
        None \<Rightarrow> Inl AttributeError
      | Some v \<Rightarrow>
          Inr (ESCommandSet_add commands (test_statement (jv v) p),
               AList.update (param_key p) v ps))"

section \<open>The compiler: \<open>operations_to_script\<close>\<close>

record script =
  source :: string
  lang :: string
  params :: params

text \<open>One pass of the loop body (lines 213 to 240) for the operation read from the store.\<close>

definition compile_operation ::
  "(string \<Rightarrow> ElasticPath) \<Rightarrow> (json \<Rightarrow> string) \<Rightarrow> ESCommandSet \<times> params \<Rightarrow> PatchOperation
     \<Rightarrow> error + (ESCommandSet \<times> params)" where
  "compile_operation EP jv st operation =
     (let p = EP (path_of operation);
          from_path = map_option EP (from_of operation);
          c1 = check_commands (fst st) (op_of operation) p False;
          c2 = (case from_path of None \<Rightarrow> c1
                | Some fp \<Rightarrow> check_commands c1 (op_of operation) fp True);
          c3 = (if op_of operation \<in> set [''remove'', ''move'']
                then remove_commands c2 (case from_path of Some fp \<Rightarrow> fp | None \<Rightarrow> p)
                else c2);
          r4 = (if op_of operation \<in> set [''add'', ''replace'', ''copy'', ''move'']
                then add_commands c3 operation p from_path (snd st)
                else Inr (c3, snd st))
      in case r4 of
           Inl e \<Rightarrow> Inl e
         | Inr (c4, ps4) \<Rightarrow>
             if op_of operation = ''test'' then test_commands jv c4 operation p ps4
             else Inr (c4, ps4))"

text \<open>
  The loop over the operation list. The local \<open>source\<close> is assigned at the end of every
  pass, so it is unbound (\<open>None\<close>) until the first pass has run.
\<close>

fun script_loop ::
  "(string \<Rightarrow> ElasticPath) \<Rightarrow> (json \<Rightarrow> string) \<Rightarrow> store \<Rightarrow> addr list
     \<Rightarrow> ESCommandSet \<times> params \<times> string option
     \<Rightarrow> error + (ESCommandSet \<times> params \<times> string option)" where
  "script_loop EP jv h [] st = Inr st"
| "script_loop EP jv h (r # rs) (commands, ps, src) =
     (case compile_operation EP jv (commands, ps) (h ! r) of
        Inl e \<Rightarrow> Inl e
      | Inr (commands', ps') \<Rightarrow>
          script_loop EP jv h rs (commands', ps', Some (concat commands')))"

text \<open>
  The function returns its result together with the store as it is after the call.
\<close>

definition operations_to_script ::
  "(string \<Rightarrow> ElasticPath) \<Rightarrow> (json \<Rightarrow> string) \<Rightarrow> store \<Rightarrow> addr list
     \<Rightarrow> (error + script) \<times> store" where
  "operations_to_script EP jv h operations =
     (case script_loop EP jv h operations ([], [], None) of
        Inl e \<Rightarrow> (Inl e, h)
      | Inr (commands, ps, src) \<Rightarrow>
          (case src of
             None \<Rightarrow> (Inl UnboundLocalError, h)
           | Some s \<Rightarrow> (Inr \<lparr>source = s, lang = ''painless'', params = ps\<rparr>, h)))"

section \<open>The operation normalizer: \<open>merge_to_operations\<close>\<close>

text \<open>
  The inner loop (lines 78 to 80): every operation returned by the nested call gets its
  path rewritten in place and is then appended to the list under construction.
\<close>

fun prefix_loop :: "string \<Rightarrow> addr list \<Rightarrow> addr list \<Rightarrow> store \<Rightarrow> addr list \<times> store" where
  "prefix_loop k [] operations h = (operations, h)"
| "prefix_loop k (a # as) operations h =
     prefix_loop k as (operations @ [a])
       (h[a := set_path (h ! a) (k @ ''.'' @ path_of (h ! a))])"

text \<open>
  The outer loop over the items of the (copied) mapping, with the list \<open>operations\<close> and
  the store as its state. A new operation object is allocated in the store; the nested
  call starts from an empty list of its own.
\<close>

function (sequential) merge_loop ::
  "(string \<times> json) list \<Rightarrow> addr list \<Rightarrow> store \<Rightarrow> addr list \<times> store" where
  "merge_loop [] operations h = (operations, h)"
| "merge_loop ((k, JNull) # rest) operations h =
     (let (a, h1) = alloc h (PatchRemove ''remove'' k)
      in merge_loop rest (operations @ [a]) h1)"
| "merge_loop ((k, JDict d) # rest) operations h =
     (let (nested, h1) = merge_loop d [] h;
          (operations', h2) = prefix_loop k nested operations h1
      in merge_loop rest operations' h2)"
| "merge_loop ((k, v) # rest) operations h =
     (let (a, h1) = alloc h (PatchAddReplaceTest ''add'' k v)
      in merge_loop rest (operations @ [a]) h1)"
  by pat_completeness auto
termination
  by (relation "measure (\<lambda>(items, operations, h). size_list (size_prod (\<lambda>_. 0) size) items)")
     auto

definition merge_to_operations :: "store \<Rightarrow> (string \<times> json) list \<Rightarrow> addr list \<times> store" where
  "merge_to_operations h data = merge_loop data [] h"

text \<open>
  The normalizer as the specification words it, on values: a null value gives a remove
  operation at the key, a nested mapping recurses and prefixes every path with the key
  and a dot, any other value gives an add operation carrying the value.
\<close>

definition prefixed :: "string \<Rightarrow> PatchOperation \<Rightarrow> PatchOperation" where
  "prefixed k x = set_path x (k @ ''.'' @ path_of x)"

function (sequential) merge_spec :: "(string \<times> json) list \<Rightarrow> PatchOperation list" where
  "merge_spec [] = []"
| "merge_spec ((k, JNull) # rest) = PatchRemove ''remove'' k # merge_spec rest"
| "merge_spec ((k, JDict d) # rest) = map (prefixed k) (merge_spec d) @ merge_spec rest"
| "merge_spec ((k, v) # rest) = PatchAddReplaceTest ''add'' k v # merge_spec rest"
  by pat_completeness auto
termination
  by (relation "measure (size_list (size_prod (\<lambda>_. 0) size))") auto

section \<open>The normalizer on an object store\<close>

text \<open>
  A second, finer embedding of \<open>merge_to_operations\<close>, for the question of what the call
  does to its input. Here the merge document itself lives in the store: a mapping or a
  list is an object referred to by its address, so that it can be shared and could be
  assigned to, as in the source.
\<close>

text \<open>
  A value is a scalar or a reference to a mapping or list object; \<open>VNone\<close> is \<open>None\<close>.
\<close>

datatype val = VNone | VBool bool | VInt int | VFloat int int | VStr string | VRef addr

text \<open>
  The objects of the store: mappings, lists, and the operations the normalizer creates,
  \<open>PatchAddReplaceTest(op, path, value)\<close> and \<open>PatchRemove(op, path)\<close>.
\<close>

datatype obj =
    ODict "(string \<times> val) list"
  | OList "val list"
  | OAddReplaceTest string string val
  | ORemove string string

type_synonym heap = "obj list"

text \<open>
  Reading and assigning the attribute \<open>path\<close>; the inner loop only ever meets operation
  objects.
\<close>

fun obj_path :: "obj \<Rightarrow> string" where
  "obj_path (OAddReplaceTest k p v) = p"
| "obj_path (ORemove k p) = p"
| "obj_path _ = []"

fun obj_set_path :: "obj \<Rightarrow> string \<Rightarrow> obj" where
  "obj_set_path (OAddReplaceTest k p v) s = OAddReplaceTest k s v"
| "obj_set_path (ORemove k p) s = ORemove k s"
| "obj_set_path x s = x"

text \<open>
  \<open>isinstance(value, dict)\<close>, and the items of a mapping as \<open>data.copy().items()\<close> yields
  them: the shallow copy is the list of items taken when the call is entered; it is local
  to the call and unreachable after it, so it is given no address.
\<close>

definition is_dict :: "heap \<Rightarrow> val \<Rightarrow> bool" where
  "is_dict H v =
     (case v of
        VRef a \<Rightarrow> a < length H \<and> (case H ! a of ODict items \<Rightarrow> True | _ \<Rightarrow> False)
      | _ \<Rightarrow> False)"

definition dict_items :: "heap \<Rightarrow> val \<Rightarrow> (string \<times> val) list" where
  "dict_items H v =
     (case v of
        VRef a \<Rightarrow> (case H ! a of ODict items \<Rightarrow> items | _ \<Rightarrow> [])
      | _ \<Rightarrow> [])"

fun prefix_loop_h :: "string \<Rightarrow> addr list \<Rightarrow> addr list \<Rightarrow> heap \<Rightarrow> addr list \<times> heap" where
  "prefix_loop_h k [] operations H = (operations, H)"
| "prefix_loop_h k (a # as) operations H =
     prefix_loop_h k as (operations @ [a])
       (H[a := obj_set_path (H ! a) (k @ ''.'' @ obj_path (H ! a))])"

text \<open>
  The loop of lines 70 to 83 with the list \<open>operations\<close> and the store as its state. The
  recursion follows references and does not end on a mapping that contains itself, so the
  function takes fuel \<open>n\<close>, the number of nested calls it may still make; \<open>None\<close> stands
  for running out of it.
\<close>

function merge_loop_h ::
  "nat \<Rightarrow> (string \<times> val) list \<Rightarrow> addr list \<Rightarrow> heap \<Rightarrow> (addr list \<times> heap) option" where
  "merge_loop_h n [] operations H = Some (operations, H)"
| "merge_loop_h n ((k, v) # rest) operations H =
     (if v = VNone
      then merge_loop_h n rest (operations @ [length H]) (H @ [ORemove ''remove'' k])
      else if is_dict H v
      then (case n of
              0 \<Rightarrow> None
            | Suc m \<Rightarrow>
                (case merge_loop_h m (dict_items H v) [] H of
                   None \<Rightarrow> None
                 | Some (nested, H1) \<Rightarrow>
                     (let (operations', H2) = prefix_loop_h k nested operations H1
                      in merge_loop_h n rest operations' H2)))
      else merge_loop_h n rest (operations @ [length H])
             (H @ [OAddReplaceTest ''add'' k v]))"
  by pat_completeness auto
termination
  by (relation "measures [\<lambda>(n, items, operations, H). n,
                          \<lambda>(n, items, operations, H). length items]") auto

text \<open>The argument \<open>data\<close> is the mapping at address \<open>a\<close>; nothing else is given a result.\<close>

definition merge_to_operations_h :: "nat \<Rightarrow> heap \<Rightarrow> addr \<Rightarrow> (addr list \<times> heap) option" where
  "merge_to_operations_h n H a =
     (if is_dict H (VRef a) then merge_loop_h n (dict_items H (VRef a)) [] H else None)"

text \<open>
  The document a value stands for in a store, followed through at most \<open>n\<close> references
  in depth: \<open>None\<close> when a reference dangles, leads to an operation, or lies deeper.
\<close>

fun read_val :: "nat \<Rightarrow> heap \<Rightarrow> val \<Rightarrow> json option" where
  "read_val n H VNone = Some JNull"
| "read_val n H (VBool b) = Some (JBool b)"
| "read_val n H (VInt i) = Some (JInt i)"
| "read_val n H (VFloat m e) = Some (JFloat m e)"
| "read_val n H (VStr s) = Some (JStr s)"
| "read_val 0 H (VRef a) = None"
| "read_val (Suc n) H (VRef a) =
     (if a < length H
      then (case H ! a of
              ODict items \<Rightarrow>
                map_option JDict
                  (those (map (\<lambda>kv. map_option (Pair (fst kv)) (read_val n H (snd kv))) items))
            | OList vs \<Rightarrow> map_option JList (those (map (read_val n H) vs))
            | _ \<Rightarrow> None)
      else None)"

text \<open>Every object of \<open>H\<close> is still there, unchanged, in \<open>H'\<close>.\<close>

definition frame :: "heap \<Rightarrow> heap \<Rightarrow> bool" where
  "frame H H' \<longleftrightarrow> length H \<le> length H' \<and> (\<forall>b<length H. H' ! b = H ! b)"

section \<open>The refresh normalizer: \<open>validate_refresh\<close>\<close>

datatype refresh_value = RBool bool | RStr string

definition lower_char :: "char \<Rightarrow> char" where
  "lower_char c =
     (if 65 \<le> (of_char c :: nat) \<and> (of_char c :: nat) \<le> 90
      then char_of ((of_char c :: nat) + 32) else c)"

text \<open>
  Python's \<open>str.lower\<close> follows the Unicode case tables, which are outside this model;
  it is the parameter \<open>str_lower\<close> of \<open>validate_refresh\<close>. \<open>ascii_lower\<close> is what
  \<open>str.lower\<close> computes on strings of ASCII characters, and is used on such strings only.
\<close>

definition ascii_lower :: "string \<Rightarrow> string" where
  "ascii_lower s = map lower_char s"

definition refresh_warning :: "string \<Rightarrow> string" where
  "refresh_warning v =
     ''Invalid value for `refresh`: '' @ sq @ v @ sq @ ''. Expected '' @ sq @ ''true'' @ sq
     @ '', '' @ sq @ ''false'' @ sq @ '', or '' @ sq @ ''wait_for'' @ sq
     @ ''. Defaulting to '' @ sq @ ''false'' @ sq @ ''.''"

text \<open>
  \<open>get_bool_env\<close> (of \<open>stac_fastapi.core.utilities\<close>) reads the process environment; it is
  a parameter. The result is the returned string and the list of warnings logged.
\<close>

fun validate_refresh ::
  "(string \<Rightarrow> refresh_value \<Rightarrow> bool) \<Rightarrow> (string \<Rightarrow> string) \<Rightarrow> refresh_value
     \<Rightarrow> string \<times> string list" where
  "validate_refresh get_bool_env str_lower (RBool b) =
     (if get_bool_env ''DATABASE_REFRESH'' (RBool b) then ''true'' else ''false'', [])"
| "validate_refresh get_bool_env str_lower (RStr s) =
     (if s \<in> set [''true'', ''false'', ''1'', ''0'', ''yes'', ''no'', ''y'', ''n'']
      then (if get_bool_env ''DATABASE_REFRESH'' (RStr s) then ''true'' else ''false'', [])
      else if str_lower s = ''wait_for'' then (''wait_for'', [])
      else (''false'', [refresh_warning (str_lower s)]))"

section \<open>Auxiliary notions for the results\<close>

text \<open>
  The command set of one pass of the compiler loop once the guards and the Remove have
  been emitted, that is the value of \<open>commands\<close> before line 228.
\<close>

definition before_add ::
  "(string \<Rightarrow> ElasticPath) \<Rightarrow> PatchOperation \<Rightarrow> ESCommandSet \<Rightarrow> ESCommandSet" where
  "before_add EP operation commands =
     (let p = EP (path_of operation);
          from_path = map_option EP (from_of operation);
          c1 = check_commands commands (op_of operation) p False;
          c2 = (case from_path of None \<Rightarrow> c1
                | Some fp \<Rightarrow> check_commands c1 (op_of operation) fp True);
          c3 = (if op_of operation \<in> set [''remove'', ''move'']
                then remove_commands c2 (case from_path of Some fp \<Rightarrow> fp | None \<Rightarrow> p)
                else c2)
      in c3)"

text \<open>
  What \<open>merge_loop\<close> guarantees about its result: the list grows by addresses that are
  new, distinct and allocated by this call, every object of the store that existed before
  is unchanged, and the new operations read back as \<open>merge_spec\<close> words them.
\<close>

definition merge_inv ::
  "(string \<times> json) list \<Rightarrow> addr list \<Rightarrow> store \<Rightarrow> addr list \<times> store \<Rightarrow> bool" where
  "merge_inv items ops h res =
     (\<exists>new. fst res = ops @ new \<and> distinct new
        \<and> (\<forall>a\<in>set new. length h \<le> a \<and> a < length (snd res))
        \<and> length h \<le> length (snd res) \<and> take (length h) (snd res) = h
        \<and> map ((!) (snd res)) new = merge_spec items)"

subsection \<open>Example data\<close>

text \<open>
  A resolver for key paths of the form parent, dot, key (no array indices), enough for
  worked examples: the parent is the text before the last dot, the key the text after it.
\<close>

definition demo_path :: "string \<Rightarrow> ElasticPath" where
  "demo_path s =
     (let n = rev (drop 1 (dropWhile (\<lambda>c. c \<noteq> CHR ''.'') (rev s)));
          k = rev (takeWhile (\<lambda>c. c \<noteq> CHR ''.'') (rev s))
      in \<lparr>path = s, nest = Some n, key = Some k, index = None,
          es_nest = (if n = [] then [] else CHR ''.'' # n),
          es_location = (if n = [] then k else CHR ''.'' # s), es_path = s,
          variable_name = map (\<lambda>c. if c = CHR ''.'' then CHR ''_'' else c) (n @ CHR ''.'' # k),
          param_key = filter (\<lambda>c. c \<noteq> CHR ''.'') s\<rparr>)"

text \<open>A descriptor that addresses element 0 of the array \<open>properties.tags\<close>.\<close>

definition first_tag :: ElasticPath where
  "first_tag =
     \<lparr>path = ''properties.tags[0]'', nest = Some ''properties'', key = Some ''tags'',
      index = Some 0, es_nest = ''.properties'', es_location = ''.properties.tags'',
      es_path = ''properties.tags[0]'', variable_name = ''properties_tags_0'',
      param_key = ''propertiestags0''\<rparr>"

text \<open>A display form for values, for examples only.\<close>

fun demo_display :: "json \<Rightarrow> string" where
  "demo_display JNull = ''null''"
| "demo_display (JBool b) = (if b then ''true'' else ''false'')"
| "demo_display (JInt i) = str_int i"
| "demo_display (JFloat m e) = str_int m @ ''*2^'' @ str_int e"
| "demo_display (JStr s) = CHR 0x22 # s @ [CHR 0x22]"
| "demo_display (JList xs) = ''[...]''"
| "demo_display (JDict kvs) = ''{...}''"

text \<open>A process in which the flag \<open>DATABASE_REFRESH\<close> resolves to true.\<close>

definition flag_true :: "string \<Rightarrow> refresh_value \<Rightarrow> bool" where
  "flag_true name dflt = True"

section \<open>Lemmas\<close>

subsection \<open>The command set\<close>

lemma add_set: "set (ESCommandSet_add cs s) = insert s (set cs)"
  by (auto simp: ESCommandSet_add_def)

lemma add_distinct: "distinct cs \<Longrightarrow> distinct (ESCommandSet_add cs s)"
  by (simp add: ESCommandSet_add_def)

lemma add_present: "s \<in> set cs \<Longrightarrow> ESCommandSet_add cs s = cs"
  by (simp add: ESCommandSet_add_def)


subsection \<open>Guards\<close>

lemma check_commands_set:
  "set (check_commands cs k p fp) =
     set cs \<union> (if truthy_str (nest p) then {nest_check p} else {})
       \<union> (if truthy_int (index p) \<or> k \<in> set [''remove'', ''replace'', ''test''] \<or> fp
          then {key_check p} else {})
       \<union> (if fp \<and> index p \<noteq> None then {index_check p} else {})"
  by (auto simp: check_commands_def Let_def add_set)

lemma check_commands_mono: "set cs \<subseteq> set (check_commands cs k p fp)"
  by (auto simp: check_commands_set)

lemma check_commands_distinct: "distinct cs \<Longrightarrow> distinct (check_commands cs k p fp)"
  by (simp add: check_commands_def Let_def add_distinct)


subsection \<open>Remove, Add and Test\<close>

lemma remove_commands_set: "set (remove_commands cs p) = insert (remove_statement p) (set cs)"
  by (simp add: remove_commands_def add_set)

lemma remove_commands_distinct: "distinct cs \<Longrightarrow> distinct (remove_commands cs p)"
  by (simp add: remove_commands_def add_distinct)

lemma remove_commands_absorb:
  "set (remove_commands cs p) \<subseteq> set cs' \<Longrightarrow> remove_commands cs' p = cs'"
  by (auto simp: remove_commands_def add_set add_present)



lemma add_commands_mono:
  "add_commands cs x p fpo ps = Inr (cs', ps') \<Longrightarrow>
     set cs \<subseteq> set cs' \<and> (distinct cs \<longrightarrow> distinct cs')"
  by (auto simp: add_commands_def add_set add_distinct split: option.splits)

lemma test_commands_mono:
  "test_commands jv cs x p ps = Inr (cs', ps') \<Longrightarrow>
     set cs \<subseteq> set cs' \<and> (distinct cs \<longrightarrow> distinct cs')"
  by (auto simp: test_commands_def add_set add_distinct split: option.splits)





subsection \<open>One pass of the loop\<close>

lemma compile_operation_steps:
  "compile_operation EP jv (cs, ps) x =
     (case (if op_of x \<in> set [''add'', ''replace'', ''copy'', ''move'']
            then add_commands (before_add EP x cs) x (EP (path_of x))
                   (map_option EP (from_of x)) ps
            else Inr (before_add EP x cs, ps)) of
        Inl e \<Rightarrow> Inl e
      | Inr (c4, ps4) \<Rightarrow>
          if op_of x = ''test'' then test_commands jv c4 x (EP (path_of x)) ps4
          else Inr (c4, ps4))"
  unfolding compile_operation_def before_add_def Let_def fst_conv snd_conv by (rule refl)

lemma before_add_mono: "set cs \<subseteq> set (before_add EP x cs)"
  unfolding before_add_def Let_def
  using check_commands_mono remove_commands_set
  by (auto split: option.splits simp: remove_commands_set check_commands_set)

lemma before_add_distinct: "distinct cs \<Longrightarrow> distinct (before_add EP x cs)"
  unfolding before_add_def Let_def
  by (auto split: option.splits simp: remove_commands_distinct check_commands_distinct)



lemma compile_operation_mono:
  assumes "compile_operation EP jv (cs, ps) x = Inr (cs', ps')"
  shows "set cs \<subseteq> set cs' \<and> (distinct cs \<longrightarrow> distinct cs')"
proof -
  from assms obtain c4 ps4 where
    r4: "(if op_of x \<in> set [''add'', ''replace'', ''copy'', ''move'']
            then add_commands (before_add EP x cs) x (EP (path_of x))
                   (map_option EP (from_of x)) ps
            else Inr (before_add EP x cs, ps)) = Inr (c4, ps4)"
    and fin: "(if op_of x = ''test'' then test_commands jv c4 x (EP (path_of x)) ps4
               else Inr (c4, ps4)) = Inr (cs', ps')"
    unfolding compile_operation_steps by (auto split: sum.splits)
  have m3: "set cs \<subseteq> set (before_add EP x cs)
            \<and> (distinct cs \<longrightarrow> distinct (before_add EP x cs))"
    by (simp add: before_add_mono before_add_distinct)
  have m4: "set (before_add EP x cs) \<subseteq> set c4 \<and> (distinct (before_add EP x cs) \<longrightarrow> distinct c4)"
    using r4 add_commands_mono [of "before_add EP x cs" x _ _ ps c4 ps4]
    by (auto split: if_splits)
  have m5: "set c4 \<subseteq> set cs' \<and> (distinct c4 \<longrightarrow> distinct cs')"
    using fin test_commands_mono [of jv c4 x _ ps4 cs' ps']
    by (auto split: if_splits)
  from m3 m4 m5 show ?thesis by blast
qed



lemma compile_operation_wf:
  "wf_operation x \<Longrightarrow> \<exists>cs' ps'. compile_operation EP jv (cs, ps) x = Inr (cs', ps')"
  unfolding compile_operation_steps
  by (cases x) (auto simp: add_commands_def test_commands_def)

subsection \<open>The loop over the operation list\<close>

lemma script_loop_append:
  "script_loop EP jv h (xs @ ys) st =
     (case script_loop EP jv h xs st of Inl e \<Rightarrow> Inl e | Inr st' \<Rightarrow> script_loop EP jv h ys st')"
proof (induction xs arbitrary: st)
  case Nil
  show ?case by simp
next
  case (Cons r rs)
  obtain cs ps src where st: "st = (cs, ps, src)" by (metis prod_cases3)
  show ?case
    by (simp add: st Cons.IH split: sum.splits prod.splits)
qed

lemma script_loop_mono:
  "script_loop EP jv h rs (cs, ps, src) = Inr (cs', ps', src') \<Longrightarrow>
     set cs \<subseteq> set cs' \<and> (distinct cs \<longrightarrow> distinct cs')"
proof (induction rs arbitrary: cs ps src)
  case Nil
  then show ?case by simp
next
  case (Cons r rs)
  from Cons.prems obtain c1 p1 where
    c: "compile_operation EP jv (cs, ps) (h ! r) = Inr (c1, p1)"
    and l: "script_loop EP jv h rs (c1, p1, Some (concat c1)) = Inr (cs', ps', src')"
    by (auto split: sum.splits)
  from compile_operation_mono [OF c] Cons.IH [OF l] show ?case by blast
qed

lemma script_loop_source:
  "script_loop EP jv h rs (cs, ps, src) = Inr (cs', ps', src') \<Longrightarrow>
     src' = (if rs = [] then src else Some (concat cs'))"
proof (induction rs arbitrary: cs ps src)
  case Nil
  then show ?case by simp
next
  case (Cons r rs)
  from Cons.prems obtain c1 p1 where
    c: "compile_operation EP jv (cs, ps) (h ! r) = Inr (c1, p1)"
    and l: "script_loop EP jv h rs (c1, p1, Some (concat c1)) = Inr (cs', ps', src')"
    by (auto split: sum.splits)
  from Cons.IH [OF l] l show ?case by (cases rs) auto
qed




lemma script_loop_wf:
  "\<forall>r\<in>set rs. wf_operation (h ! r) \<Longrightarrow>
     \<exists>st'. script_loop EP jv h rs (cs, ps, src) = Inr st'"
proof (induction rs arbitrary: cs ps src)
  case Nil
  show ?case by simp
next
  case (Cons a rs)
  from Cons.prems have "wf_operation (h ! a)" by simp
  from compile_operation_wf [OF this, of EP jv cs ps] obtain c1 p1 where
    c: "compile_operation EP jv (cs, ps) (h ! a) = Inr (c1, p1)" by blast
  from Cons.IH [of c1 p1 "Some (concat c1)"] Cons.prems
  show ?case by (simp add: c)
qed


lemma operations_to_script_total:
  assumes "rs \<noteq> []" and "\<forall>r\<in>set rs. wf_operation (h ! r)"
  shows "\<exists>s. operations_to_script EP jv h rs = (Inr s, h)"
proof -
  from script_loop_wf [OF assms(2), of EP jv "[]" "[]" None]
  obtain cs ps src where l: "script_loop EP jv h rs ([], [], None) = Inr (cs, ps, src)"
    by (metis prod_cases3)
  from script_loop_source [OF l] assms(1) have "src = Some (concat cs)" by simp
  with l show ?thesis by (simp add: operations_to_script_def)
qed

subsection \<open>Telling the kinds of statement apart\<close>


lemma key_check_4: "key_check p ! 4 = CHR ''!''"
  by (simp add: key_check_def)

lemma index_check_4: "index_check p ! 4 = CHR ''(''"
  by (simp add: index_check_def)

lemma remove_statement_0: "remove_statement p ! 0 = CHR ''d''"
  by (simp add: remove_statement_def)

lemma nest_check_0: "nest_check p ! 0 = CHR ''i''"
  by (simp add: nest_check_def)

lemma key_check_0: "key_check p ! 0 = CHR ''i''"
  by (simp add: key_check_def)

lemma index_check_0: "index_check p ! 0 = CHR ''i''"
  by (simp add: index_check_def)

lemma add_statement_0: "add_statement k p v ! 0 \<noteq> CHR ''d''"
  by (simp add: add_statement_def)


lemma remove_not_guard:
  "remove_statement q \<noteq> nest_check p" "remove_statement q \<noteq> key_check p"
  "remove_statement q \<noteq> index_check p"
  using remove_statement_0 [of q] nest_check_0 [of p] key_check_0 [of p] index_check_0 [of p]
  by auto


lemma add_not_remove: "add_statement k q v \<noteq> remove_statement p"
  using add_statement_0 [of k q v] remove_statement_0 [of p] by auto

lemma check_commands_guards:
  "set (check_commands cs k p fp) \<subseteq> set cs \<union> {nest_check p, key_check p, index_check p}"
  by (auto simp: check_commands_set split: if_splits)



lemma concat_mem_split:
  assumes "x \<in> set xs"
  shows "\<exists>u w. concat xs = u @ x @ w"
proof -
  from assms obtain ys zs where "xs = ys @ x # zs" by (auto simp: in_set_conv_decomp)
  then have "concat xs = concat ys @ x @ concat zs" by simp
  then show ?thesis by blast
qed

subsection \<open>The normalizer\<close>

lemma prefix_loop_fst: "fst (prefix_loop k as ops h) = ops @ as"
  by (induction as arbitrary: ops h) auto

lemma prefix_loop_length: "length (snd (prefix_loop k as ops h)) = length h"
  by (induction as arbitrary: ops h) auto

lemma prefix_loop_other: "a \<notin> set as \<Longrightarrow> snd (prefix_loop k as ops h) ! a = h ! a"
  by (induction as arbitrary: ops h) auto

lemma prefix_loop_nth:
  "distinct as \<Longrightarrow> a \<in> set as \<Longrightarrow> a < length h \<Longrightarrow>
     snd (prefix_loop k as ops h) ! a = prefixed k (h ! a)"
proof (induction as arbitrary: ops h)
  case Nil
  then show ?case by simp
next
  case (Cons b bs)
  show ?case
  proof (cases "a = b")
    case True
    with Cons.prems show ?thesis
      by (simp add: prefix_loop_other prefixed_def)
  next
    case False
    with Cons.prems have "a \<in> set bs" "distinct bs" by auto
    with Cons.IH [of "h[b := set_path (h ! b) (k @ ''.'' @ path_of (h ! b))]" "ops @ [b]"]
      Cons.prems False
    show ?thesis by simp
  qed
qed

lemma prefix_loop_take:
  "\<forall>a\<in>set as. n \<le> a \<Longrightarrow> take n (snd (prefix_loop k as ops h)) = take n h"
  by (induction as arbitrary: ops h) auto

lemma merge_inv_alloc:
  assumes "merge_inv rest (ops @ [length h]) (h @ [x]) res"
  shows "\<exists>new. fst res = ops @ new \<and> distinct new
        \<and> (\<forall>a\<in>set new. length h \<le> a \<and> a < length (snd res))
        \<and> length h \<le> length (snd res) \<and> take (length h) (snd res) = h
        \<and> map ((!) (snd res)) new = x # merge_spec rest"
proof -
  from assms obtain new where n: "fst res = (ops @ [length h]) @ new" "distinct new"
    "\<forall>a\<in>set new. length (h @ [x]) \<le> a \<and> a < length (snd res)"
    "length (h @ [x]) \<le> length (snd res)" "take (length (h @ [x])) (snd res) = h @ [x]"
    "map ((!) (snd res)) new = merge_spec rest"
    unfolding merge_inv_def by blast
  have lt: "length h < length (snd res)" using n(4) by simp
  have "take (length (h @ [x])) (snd res) ! length h = (h @ [x]) ! length h"
    using n(5) by simp
  then have at: "snd res ! length h = x" by simp
  have "take (length h) (take (length (h @ [x])) (snd res)) = take (length h) (h @ [x])"
    using n(5) by simp
  then have tk: "take (length h) (snd res) = h" by (simp add: min_def)
  have d: "distinct (length h # new)" using n(2,3) by auto
  have r: "\<forall>a\<in>set (length h # new). length h \<le> a \<and> a < length (snd res)"
    using n(3) lt by auto
  show ?thesis
    apply (rule exI [of _ "length h # new"])
    using n(1) d r lt tk at n(6) by simp
qed

lemmas merge_loop_induct =
  merge_loop.induct [case_names Nil Null Dict Bool Int Float Str List]

lemma merge_loop_inv: "merge_inv items ops h (merge_loop items ops h)"
proof (induction items ops h rule: merge_loop_induct)
  case (Nil ops h)
  show ?case by (simp add: merge_inv_def)
next
  case (Null k rest ops h)
  have "merge_inv rest (ops @ [length h]) (h @ [PatchRemove ''remove'' k])
          (merge_loop rest (ops @ [length h]) (h @ [PatchRemove ''remove'' k]))"
    by (rule Null [OF refl]) (simp add: alloc_def)
  from merge_inv_alloc [OF this] show ?case
    by (simp add: merge_inv_def alloc_def)
next
  case (Dict k d rest ops h)
  obtain nested h1 where n: "merge_loop d [] h = (nested, h1)" by fastforce
  obtain ops' h2 where p: "prefix_loop k nested ops h1 = (ops', h2)" by fastforce
  obtain refs h3 where r: "merge_loop rest ops' h2 = (refs, h3)" by fastforce
  from Dict.IH(1) n have i1: "distinct nested"
    "\<forall>a\<in>set nested. length h \<le> a \<and> a < length h1"
    "length h \<le> length h1" "take (length h) h1 = h"
    "map ((!) h1) nested = merge_spec d"
    by (auto simp: merge_inv_def)
  from p have ops': "ops' = ops @ nested" and h2: "h2 = snd (prefix_loop k nested ops h1)"
    using prefix_loop_fst [of k nested ops h1] by auto
  have l2: "length h2 = length h1" by (simp add: h2 prefix_loop_length)
  have t2: "take (length h) h2 = h"
    using prefix_loop_take [of nested "length h" k ops h1] i1(2,4) by (simp add: h2)
  have m2: "map ((!) h2) nested = map (prefixed k) (merge_spec d)"
  proof -
    have "map ((!) h2) nested = map (\<lambda>a. prefixed k (h1 ! a)) nested"
      using i1(1,2) by (auto simp: h2 prefix_loop_nth)
    also have "\<dots> = map (prefixed k) (map ((!) h1) nested)" by simp
    finally show ?thesis by (simp add: i1(5))
  qed
  from Dict.IH(2) [OF n [symmetric] refl p [symmetric] refl] r
  obtain new where i3: "refs = ops' @ new" "distinct new"
    "\<forall>a\<in>set new. length h2 \<le> a \<and> a < length h3"
    "length h2 \<le> length h3" "take (length h2) h3 = h2"
    "map ((!) h3) new = merge_spec rest"
    by (auto simp: merge_inv_def)
  have same: "\<And>a. a < length h2 \<Longrightarrow> h3 ! a = h2 ! a"
    using i3(5) by (metis nth_take)
  have m3: "map ((!) h3) nested = map (prefixed k) (merge_spec d)"
    using i1(2) l2 same m2 by (metis (no_types, lifting) map_eq_conv)
  have t3: "take (length h) h3 = h"
  proof -
    have "take (length h) (take (length h2) h3) = take (length h) h2" by (simp add: i3(5))
    then show ?thesis using i1(3) l2 t2 by (simp add: min_def)
  qed
  have d3: "distinct (nested @ new)" using i1(1,2) i3(2,3) l2 by fastforce
  have r3: "\<forall>a\<in>set (nested @ new). length h \<le> a \<and> a < length h3"
    using i1(2,3) i3(3,4) l2 by fastforce
  have "merge_inv ((k, JDict d) # rest) ops h (refs, h3)"
    unfolding merge_inv_def
    apply (rule exI [of _ "nested @ new"])
    using i3(1) ops' d3 r3 i1(3) i3(4) l2 t3 m3 i3(6) by simp
  then show ?case by (simp add: n p r)
next
  case (Bool k v rest ops h)
  have "merge_inv rest (ops @ [length h]) (h @ [PatchAddReplaceTest ''add'' k (JBool v)])
          (merge_loop rest (ops @ [length h]) (h @ [PatchAddReplaceTest ''add'' k (JBool v)]))"
    by (rule Bool [OF refl]) (simp add: alloc_def)
  from merge_inv_alloc [OF this] show ?case
    by (simp add: merge_inv_def alloc_def)
next
  case (Int k v rest ops h)
  have "merge_inv rest (ops @ [length h]) (h @ [PatchAddReplaceTest ''add'' k (JInt v)])
          (merge_loop rest (ops @ [length h]) (h @ [PatchAddReplaceTest ''add'' k (JInt v)]))"
    by (rule Int [OF refl]) (simp add: alloc_def)
  from merge_inv_alloc [OF this] show ?case
    by (simp add: merge_inv_def alloc_def)
next
  case (Float k m e rest ops h)
  have "merge_inv rest (ops @ [length h]) (h @ [PatchAddReplaceTest ''add'' k (JFloat m e)])
          (merge_loop rest (ops @ [length h]) (h @ [PatchAddReplaceTest ''add'' k (JFloat m e)]))"
    by (rule Float [OF refl]) (simp add: alloc_def)
  from merge_inv_alloc [OF this] show ?case
    by (simp add: merge_inv_def alloc_def)
next
  case (Str k v rest ops h)
  have "merge_inv rest (ops @ [length h]) (h @ [PatchAddReplaceTest ''add'' k (JStr v)])
          (merge_loop rest (ops @ [length h]) (h @ [PatchAddReplaceTest ''add'' k (JStr v)]))"
    by (rule Str [OF refl]) (simp add: alloc_def)
  from merge_inv_alloc [OF this] show ?case
    by (simp add: merge_inv_def alloc_def)
next
  case (List k v rest ops h)
  have "merge_inv rest (ops @ [length h]) (h @ [PatchAddReplaceTest ''add'' k (JList v)])
          (merge_loop rest (ops @ [length h]) (h @ [PatchAddReplaceTest ''add'' k (JList v)]))"
    by (rule List [OF refl]) (simp add: alloc_def)
  from merge_inv_alloc [OF this] show ?case
    by (simp add: merge_inv_def alloc_def)
qed

subsection \<open>The refresh normalizer\<close>

lemma validate_refresh_cases:
  "validate_refresh g lw (RBool b)
     = (if g ''DATABASE_REFRESH'' (RBool b) then ''true'' else ''false'', [])
   \<and> (s \<in> set [''true'', ''false'', ''1'', ''0'', ''yes'', ''no'', ''y'', ''n'']
        \<longrightarrow> validate_refresh g lw (RStr s)
            = (if g ''DATABASE_REFRESH'' (RStr s) then ''true'' else ''false'', []))
   \<and> (s \<notin> set [''true'', ''false'', ''1'', ''0'', ''yes'', ''no'', ''y'', ''n'']
        \<and> lw s = ''wait_for''
        \<longrightarrow> validate_refresh g lw (RStr s) = (''wait_for'', []))
   \<and> (s \<notin> set [''true'', ''false'', ''1'', ''0'', ''yes'', ''no'', ''y'', ''n'']
        \<and> lw s \<noteq> ''wait_for''
        \<longrightarrow> validate_refresh g lw (RStr s) = (''false'', [refresh_warning (lw s)]))"
  by auto

subsection \<open>Single operations and duplicates\<close>

lemma key_guard_offered:
  assumes "key_check p \<noteq> nest_check p"
  shows "key_check p \<in> set (check_commands [] k p fp)
           \<longleftrightarrow> truthy_int (index p) \<or> k \<in> set [''remove'', ''replace'', ''test''] \<or> fp"
proof -
  have "key_check p \<noteq> index_check p"
    using key_check_4 [of p] index_check_4 [of p] by auto
  with assms show ?thesis
    by (auto simp: check_commands_set)
qed


lemma compile_copy:
  "compile_operation EP jv (cs, ps) (PatchMoveCopy ''copy'' p f) =
     Inr (ESCommandSet_add
            (check_commands (check_commands cs ''copy'' (EP p) False) ''copy'' (EP f) True)
            (add_statement ''copy'' (EP p) (''ctx._source.'' @ es_path (EP f))),
          ps)"
  by (simp add: compile_operation_def Let_def remove_commands_def add_commands_def)


lemma two_checks_guards:
  "set (check_commands (check_commands [] k p False) k f True)
     \<subseteq> {nest_check p, key_check p, nest_check f, key_check f, index_check f}"
  using check_commands_guards [of "check_commands [] k p False" k f True]
    check_commands_guards [of "[]" k p False]
  by (auto simp: check_commands_set split: if_splits)






subsection \<open>The command set only grows at its end\<close>








lemma script_loop_split:
  assumes "script_loop EP jv h (pre @ r # post) st = Inr (cs, ps, src)"
  shows "\<exists>c0 p0 s0 c1 p1.
           script_loop EP jv h pre st = Inr (c0, p0, s0)
           \<and> compile_operation EP jv (c0, p0) (h ! r) = Inr (c1, p1)
           \<and> script_loop EP jv h post (c1, p1, Some (concat c1)) = Inr (cs, ps, src)"
proof -
  from assms obtain st0 where
    l0: "script_loop EP jv h pre st = Inr st0"
    and l1: "script_loop EP jv h (r # post) st0 = Inr (cs, ps, src)"
    unfolding script_loop_append by (auto split: sum.splits)
  obtain c0 p0 s0 where st0: "st0 = (c0, p0, s0)" by (metis prod_cases3)
  from l1 obtain c1 p1 where
    c: "compile_operation EP jv (c0, p0) (h ! r) = Inr (c1, p1)"
    and l2: "script_loop EP jv h post (c1, p1, Some (concat c1)) = Inr (cs, ps, src)"
    unfolding st0 by (auto split: sum.splits)
  from l0 st0 c l2 show ?thesis by blast
qed

subsection \<open>The normalizer on the object store\<close>

lemma merge_to_operations_store_frame:
  assumes "merge_to_operations h data = (refs, h')"
  shows "length h \<le> length h' \<and> take (length h) h' = h
         \<and> (\<forall>a<length h. h' ! a = h ! a)
         \<and> (\<forall>r\<in>set refs. length h \<le> r \<and> r < length h')"
proof -
  from merge_loop_inv [of data "[]" h] assms
  have l: "length h \<le> length h'" and t: "take (length h) h' = h"
    and r: "\<forall>r\<in>set refs. length h \<le> r \<and> r < length h'"
    by (auto simp: merge_to_operations_def merge_inv_def)
  have "\<forall>a<length h. h' ! a = h ! a"
    using t by (metis nth_take)
  with l t r show ?thesis by blast
qed


lemma prefix_loop_h_fst: "fst (prefix_loop_h k as ops H) = ops @ as"
  by (induction as arbitrary: ops H) auto

lemma prefix_loop_h_length: "length (snd (prefix_loop_h k as ops H)) = length H"
  by (induction as arbitrary: ops H) auto

lemma prefix_loop_h_other: "b \<notin> set as \<Longrightarrow> snd (prefix_loop_h k as ops H) ! b = H ! b"
  by (induction as arbitrary: ops H) auto

lemma frame_refl: "frame H H"
  by (simp add: frame_def)

lemma frame_trans: "frame H H1 \<Longrightarrow> frame H1 H2 \<Longrightarrow> frame H H2"
  by (auto simp: frame_def)

lemma frame_append: "frame H (H @ [x])"
  by (simp add: frame_def nth_append)

lemma prefix_loop_h_frame:
  assumes "frame H H1" and "\<forall>a\<in>set as. length H \<le> a"
  shows "frame H (snd (prefix_loop_h k as ops H1))"
proof -
  have "\<forall>b<length H. snd (prefix_loop_h k as ops H1) ! b = H1 ! b"
    using assms(2) by (auto intro!: prefix_loop_h_other)
  with assms(1) show ?thesis
    by (simp add: frame_def prefix_loop_h_length)
qed

lemma merge_loop_h_frame:
  "merge_loop_h n items ops H = Some (refs, H') \<Longrightarrow>
     frame H H' \<and> (\<exists>new. refs = ops @ new \<and> (\<forall>r\<in>set new. length H \<le> r \<and> r < length H'))"
proof (induction n items ops H arbitrary: refs H' rule: merge_loop_h.induct)
  case (1 n ops H)
  then show ?case by (simp add: frame_refl)
next
  case (2 n k v rest ops H)
  show ?case
  proof (cases "v = VNone")
    case True
    with "2.prems" have e: "merge_loop_h n rest (ops @ [length H]) (H @ [ORemove ''remove'' k])
                              = Some (refs, H')" by simp
    from "2.IH"(1) [OF True e] obtain new where
      f: "frame (H @ [ORemove ''remove'' k]) H'" and r: "refs = (ops @ [length H]) @ new"
      and n: "\<forall>r\<in>set new. length (H @ [ORemove ''remove'' k]) \<le> r \<and> r < length H'"
      by blast
    from f have f': "frame H H'" using frame_trans [OF frame_append] by blast
    from f have "length H < length H'" by (simp add: frame_def)
    with n have "\<forall>r\<in>set (length H # new). length H \<le> r \<and> r < length H'" by auto
    with r f' show ?thesis by (intro conjI exI [of _ "length H # new"]) auto
  next
    case False
    note notnone = False
    show ?thesis
    proof (cases "is_dict H v")
      case True
      with notnone "2.prems" obtain m nested H1 where
        n: "n = Suc m"
        and inner: "merge_loop_h m (dict_items H v) [] H = Some (nested, H1)"
        and rest: "merge_loop_h n rest (fst (prefix_loop_h k nested ops H1))
                     (snd (prefix_loop_h k nested ops H1)) = Some (refs, H')"
        by (auto split: nat.splits option.splits prod.splits)
      from "2.IH"(2) [OF notnone True n inner] obtain new1 where
        f1: "frame H H1" and r1: "nested = [] @ new1"
        and n1: "\<forall>r\<in>set new1. length H \<le> r \<and> r < length H1" by blast
      define ops' where "ops' = fst (prefix_loop_h k nested ops H1)"
      define H2 where "H2 = snd (prefix_loop_h k nested ops H1)"
      have p: "prefix_loop_h k nested ops H1 = (ops', H2)" by (simp add: ops'_def H2_def)
      have o: "ops' = ops @ nested" by (simp add: ops'_def prefix_loop_h_fst)
      have l2: "length H2 = length H1" by (simp add: H2_def prefix_loop_h_length)
      have f2: "frame H H2"
        unfolding H2_def using f1 n1 r1 by (intro prefix_loop_h_frame) auto
      from rest have rest': "merge_loop_h n rest ops' H2 = Some (refs, H')"
        by (simp add: ops'_def H2_def)
      from "2.IH"(3) [OF notnone True n inner refl p [symmetric] refl rest'] obtain new2 where
        f3: "frame H2 H'" and r3: "refs = ops' @ new2"
        and n3: "\<forall>r\<in>set new2. length H2 \<le> r \<and> r < length H'" by blast
      have ff: "frame H H'" using frame_trans [OF f2 f3] .
      have "\<forall>r\<in>set (nested @ new2). length H \<le> r \<and> r < length H'"
        using n1 r1 n3 l2 f2 f3 by (fastforce simp: frame_def)
      with ff r3 o show ?thesis by (intro conjI exI [of _ "nested @ new2"]) auto
    next
      case False
      with notnone "2.prems" have e: "merge_loop_h n rest (ops @ [length H])
                              (H @ [OAddReplaceTest ''add'' k v]) = Some (refs, H')" by simp
      from "2.IH"(4) [OF notnone False e] obtain new where
        f: "frame (H @ [OAddReplaceTest ''add'' k v]) H'" and r: "refs = (ops @ [length H]) @ new"
        and n: "\<forall>r\<in>set new. length (H @ [OAddReplaceTest ''add'' k v]) \<le> r \<and> r < length H'"
        by blast
      from f have f': "frame H H'" using frame_trans [OF frame_append] by blast
      from f have "length H < length H'" by (simp add: frame_def)
      with n have "\<forall>r\<in>set (length H # new). length H \<le> r \<and> r < length H'" by auto
      with r f' show ?thesis by (intro conjI exI [of _ "length H # new"]) auto
    qed
  qed
qed

lemma those_map_Some:
  "those (map f xs) = Some ys \<Longrightarrow> \<forall>x\<in>set xs. f x \<noteq> None"
proof (induction xs arbitrary: ys)
  case Nil
  then show ?case by simp
next
  case (Cons x xs)
  then show ?case by (auto split: option.splits)
qed

lemma those_map_agree:
  "\<forall>x\<in>set xs. f x \<noteq> None \<longrightarrow> g x = f x \<Longrightarrow> those (map f xs) = Some ys \<Longrightarrow>
     those (map g xs) = Some ys"
proof (induction xs arbitrary: ys)
  case Nil
  then show ?case by simp
next
  case (Cons x xs)
  from Cons.prems(2) obtain y ys' where fx: "f x = Some y"
    and t: "those (map f xs) = Some ys'" and ys: "ys = y # ys'"
    by (auto split: option.splits)
  from Cons.prems(1) fx have gx: "g x = Some y" by simp
  from Cons.IH [OF _ t] Cons.prems(1) have "those (map g xs) = Some ys'" by simp
  with gx ys show ?case by simp
qed

lemma read_val_frame:
  "frame H H' \<Longrightarrow> read_val n H v = Some j \<Longrightarrow> read_val n H' v = Some j"
proof (induction n arbitrary: v j)
  case 0
  then show ?case by (cases v) auto
next
  case (Suc n)
  show ?case
  proof (cases v)
    case (VRef a)
    from Suc.prems(2) VRef have a: "a < length H" by (auto split: if_splits)
    with Suc.prems(1) have a': "a < length H'" and same: "H' ! a = H ! a"
      by (auto simp: frame_def)
    show ?thesis
    proof (cases "H ! a")
      case (ODict items)
      from Suc.prems(2) VRef a ODict obtain js where
        t: "those (map (\<lambda>kv. map_option (Pair (fst kv)) (read_val n H (snd kv))) items) = Some js"
        and j: "j = JDict js" by auto
      have "\<forall>kv\<in>set items. map_option (Pair (fst kv)) (read_val n H (snd kv)) \<noteq> None
              \<longrightarrow> map_option (Pair (fst kv)) (read_val n H' (snd kv))
                  = map_option (Pair (fst kv)) (read_val n H (snd kv))"
        using Suc.IH [OF Suc.prems(1)] by auto
      from those_map_agree [OF this t] VRef a' same ODict j show ?thesis by simp
    next
      case (OList vs)
      from Suc.prems(2) VRef a OList obtain js where
        t: "those (map (read_val n H) vs) = Some js" and j: "j = JList js" by auto
      have "\<forall>x\<in>set vs. read_val n H x \<noteq> None \<longrightarrow> read_val n H' x = read_val n H x"
        using Suc.IH [OF Suc.prems(1)] by auto
      from those_map_agree [OF this t] VRef a' same OList j show ?thesis by simp
    next
      case (OAddReplaceTest k p x)
      with Suc.prems(2) VRef a show ?thesis by simp
    next
      case (ORemove k p)
      with Suc.prems(2) VRef a show ?thesis by simp
    qed
  qed (use Suc.prems(2) in auto)
qed

lemma read_val_items:
  assumes "read_val (Suc n) H v \<noteq> None" and "is_dict H v"
  shows "\<forall>kv\<in>set (dict_items H v). read_val n H (snd kv) \<noteq> None"
proof -
  from assms(2) obtain a items where v: "v = VRef a" and a: "a < length H"
    and d: "H ! a = ODict items"
    by (auto simp: is_dict_def split: val.splits obj.splits)
  from assms(1) v a d obtain js where
    "those (map (\<lambda>kv. map_option (Pair (fst kv)) (read_val n H (snd kv))) items) = Some js"
    by auto
  from those_map_Some [OF this] v d show ?thesis
    by (auto simp: dict_items_def)
qed

lemma read_val_dict_Suc:
  "is_dict H v \<Longrightarrow> read_val n H v \<noteq> None \<Longrightarrow> \<exists>m. n = Suc m"
  by (cases n) (auto simp: is_dict_def split: val.splits)

lemma merge_loop_h_returns:
  "\<forall>kv\<in>set items. read_val n H (snd kv) \<noteq> None \<Longrightarrow>
     \<exists>res. merge_loop_h n items ops H = Some res"
proof (induction n items ops H rule: merge_loop_h.induct)
  case (1 n ops H)
  show ?case by simp
next
  case (2 n k v rest ops H)
  have readable: "\<And>H'. frame H H' \<Longrightarrow> \<forall>kv\<in>set rest. read_val n H' (snd kv) \<noteq> None"
  proof
    fix H' kv assume f: "frame H H'" and kv: "kv \<in> set rest"
    with "2.prems" obtain j where "read_val n H (snd kv) = Some j" by auto
    from read_val_frame [OF f this] show "read_val n H' (snd kv) \<noteq> None" by simp
  qed
  show ?case
  proof (cases "v = VNone")
    case True
    from "2.IH"(1) [OF True readable [OF frame_append]] True show ?thesis by simp
  next
    case False
    note notnone = False
    show ?thesis
    proof (cases "is_dict H v")
      case True
      from "2.prems" have rv: "read_val n H v \<noteq> None" by simp
      from read_val_dict_Suc [OF True rv] obtain m where n: "n = Suc m" by blast
      from read_val_items [OF rv [unfolded n] True]
      have "\<forall>kv\<in>set (dict_items H v). read_val m H (snd kv) \<noteq> None" .
      from "2.IH"(2) [OF notnone True n this] obtain nested H1 where
        inner: "merge_loop_h m (dict_items H v) [] H = Some (nested, H1)" by auto
      define ops' where "ops' = fst (prefix_loop_h k nested ops H1)"
      define H2 where "H2 = snd (prefix_loop_h k nested ops H1)"
      have p: "prefix_loop_h k nested ops H1 = (ops', H2)" by (simp add: ops'_def H2_def)
      from merge_loop_h_frame [OF inner] have f1: "frame H H1"
        and n1: "\<forall>r\<in>set nested. length H \<le> r" by auto
      have f2: "frame H H2" unfolding H2_def using f1 n1 by (rule prefix_loop_h_frame)
      from "2.IH"(3) [OF notnone True n inner refl p [symmetric] refl readable [OF f2]]
      obtain res where "merge_loop_h n rest ops' H2 = Some res" by blast
      with notnone True n inner p show ?thesis by simp
    next
      case False
      from "2.IH"(4) [OF notnone False readable [OF frame_append]] notnone False
      show ?thesis by simp
    qed
  qed
qed

section \<open>Properties of the specification\<close>

text \<open>
  C1, at the empty operation list: no pass of the loop runs, the local \<open>source\<close> is never
  assigned, and the return statement raises UnboundLocalError instead of producing a
  script with empty source and empty parameters. (For a non-empty list of well-formed
  operations the call does return a script, see \<open>operations_to_script_total\<close>.)
\<close>

theorem C1_empty_list_raises:
  "operations_to_script EP jv h [] = (Inl UnboundLocalError, h)"
  by (simp add: operations_to_script_def)

text \<open>
  C2, at a descriptor that addresses index 0: for an \<open>add\<close> on a target path the guard emitter
  tests the index for truth, index 0 counts as false, and the key guard is not appended;
  only the guard for the parent is. With index 1 in the same descriptor the key guard is
  appended. (In general the guard is offered exactly when the index is non-zero, the kind
  is remove, replace or test, or the path is a source path: \<open>key_guard_offered\<close>.)
\<close>

theorem C2_index_zero_no_key_guard:
  "index first_tag = Some 0
   \<and> check_commands [] ''add'' first_tag False = [nest_check first_tag]
   \<and> key_check first_tag \<notin> set (check_commands [] ''add'' first_tag False)
   \<and> check_commands [] ''add'' (first_tag\<lparr>index := Some 1\<rparr>) False
       = [nest_check first_tag, key_check first_tag]"
  by (simp add: first_tag_def check_commands_def Let_def truthy_str_def truthy_int_def
      ESCommandSet_add_def nest_check_def key_check_def sq_def fmt_str_def)

text \<open>
  C3, at the string \<open>TRUE\<close>: it is one of the boolean words up to letter case (its lower
  case is \<open>true\<close>) and the flag resolves to true, yet \<open>validate_refresh\<close> tests membership
  among the lower-case words before it lower-cases the value, so the flag is not
  consulted: the call logs the warning for \<open>true\<close> and returns \<open>false\<close>. The same word in
  lower case goes through the flag, and \<open>WAIT_FOR\<close> is accepted in upper case.
\<close>

theorem C3_upper_case_boolean:
  "ascii_lower ''TRUE'' = ''true''
   \<and> flag_true ''DATABASE_REFRESH'' (RStr ''TRUE'')
   \<and> validate_refresh flag_true ascii_lower (RStr ''TRUE'')
       = (''false'', [refresh_warning ''true''])
   \<and> validate_refresh flag_true ascii_lower (RStr ''true'') = (''true'', [])
   \<and> validate_refresh flag_true ascii_lower (RStr ''WAIT_FOR'') = (''wait_for'', [])"
proof -
  have l: "ascii_lower ''TRUE'' = ''true''" by code_simp
  have w: "ascii_lower ''WAIT_FOR'' = ''wait_for''" by code_simp
  show ?thesis by (simp add: l w flag_true_def)
qed




text \<open>
  C5: for a copy operation at any position of a list that compiles, \<open>c0\<close> and \<open>p0\<close> being
  the command set and the parameter map when the copy is reached. Its Add is in the final
  sequence, and the value it assigns is \<open>ctx._source.\<close> followed by the full path of the
  source: not a scratch variable, not a parameter. The pass returns the parameter map as
  it was, every statement it adds is a guard of the two paths or that Add, and no Remove
  statement enters the command set. The last two conjuncts spell out the text of the Add
  (positional \<open>set\<close> for an indexed target) and of a Remove.
\<close>

theorem C5_copy_semantics:
  assumes "script_loop EP jv h pre ([], [], None) = Inr (c0, p0, s0)"
    and "script_loop EP jv h (pre @ r # post) ([], [], None) = Inr (cs, ps, src)"
    and "h ! r = PatchMoveCopy ''copy'' p f"
  shows "add_statement ''copy'' (EP p) (''ctx._source.'' @ es_path (EP f)) \<in> set cs
         \<and> (\<exists>c1. compile_operation EP jv (c0, p0) (h ! r) = Inr (c1, p0)
               \<and> set c1 \<subseteq> set c0 \<union> {nest_check (EP p), key_check (EP p),
                                     nest_check (EP f), key_check (EP f), index_check (EP f),
                                     add_statement ''copy'' (EP p)
                                       (''ctx._source.'' @ es_path (EP f))}
               \<and> (\<forall>q. remove_statement q \<in> set c1 \<longrightarrow> remove_statement q \<in> set c0))
         \<and> add_statement ''copy'' q v =
             (if index q \<noteq> None
              then ''if (ctx._source'' @ es_location q @ '' instanceof ArrayList)''
                   @ ''{ctx._source'' @ es_location q @ ''.set('' @ fmt_int (index q)
                   @ '', '' @ v @ '')}'' @ ''else{ctx._source.'' @ es_path q @ '' = '' @ v @ ''}''
              else ''ctx._source.'' @ es_path q @ '' = '' @ v @ '';'')
         \<and> remove_statement q =
             (if index q \<noteq> None
              then ''def '' @ variable_name q @ '' = ctx._source'' @ es_location q
                   @ ''.remove('' @ fmt_int (index q) @ '');''
              else ''def '' @ variable_name q @ '' = ctx._source'' @ es_nest q
                   @ ''.remove('' @ sq @ fmt_str (key q) @ sq @ '');'')"
proof -
  define A where "A = add_statement ''copy'' (EP p) (''ctx._source.'' @ es_path (EP f))"
  define G where "G = check_commands (check_commands c0 ''copy'' (EP p) False) ''copy'' (EP f) True"
  define cA where "cA = ESCommandSet_add G A"
  from script_loop_split [OF assms(2)] assms(1) obtain c1 p1 where
    c: "compile_operation EP jv (c0, p0) (h ! r) = Inr (c1, p1)"
    and l: "script_loop EP jv h post (c1, p1, Some (concat c1)) = Inr (cs, ps, src)"
    by auto
  have cm: "compile_operation EP jv (c0, p0) (h ! r) = Inr (cA, p0)"
    unfolding assms(3) compile_copy cA_def G_def A_def by (rule refl)
  with c have c1: "c1 = cA" by auto
  from script_loop_mono [OF l] have "set cA \<subseteq> set cs" unfolding c1 by simp
  then have Ain: "A \<in> set cs" by (auto simp: cA_def add_set)
  have gsub: "set G \<subseteq> set c0 \<union> {nest_check (EP p), key_check (EP p),
                              nest_check (EP f), key_check (EP f), index_check (EP f)}"
    unfolding G_def by (auto simp: check_commands_set split: if_splits)
  then have sub: "set cA \<subseteq> set c0 \<union> {nest_check (EP p), key_check (EP p),
                              nest_check (EP f), key_check (EP f), index_check (EP f), A}"
    by (auto simp: cA_def add_set)
  have keep: "\<forall>q. remove_statement q \<in> set cA \<longrightarrow> remove_statement q \<in> set c0"
  proof (intro allI impI)
    fix q assume "remove_statement q \<in> set cA"
    with sub have "remove_statement q \<in> set c0 \<union> {nest_check (EP p), key_check (EP p),
                     nest_check (EP f), key_check (EP f), index_check (EP f), A}" by blast
    then show "remove_statement q \<in> set c0"
      using remove_not_guard [of q "EP p"] remove_not_guard [of q "EP f"]
        add_not_remove [of "''copy''" "EP p" "''ctx._source.'' @ es_path (EP f)" q]
      unfolding A_def by auto
  qed
  from cm sub keep have pass: "\<exists>c1. compile_operation EP jv (c0, p0) (h ! r) = Inr (c1, p0)
               \<and> set c1 \<subseteq> set c0 \<union> {nest_check (EP p), key_check (EP p),
                                     nest_check (EP f), key_check (EP f), index_check (EP f), A}
               \<and> (\<forall>q. remove_statement q \<in> set c1 \<longrightarrow> remove_statement q \<in> set c0)"
    by blast
  have pinA: "add_statement ''copy'' q v =
             (if index q \<noteq> None
              then ''if (ctx._source'' @ es_location q @ '' instanceof ArrayList)''
                   @ ''{ctx._source'' @ es_location q @ ''.set('' @ fmt_int (index q)
                   @ '', '' @ v @ '')}'' @ ''else{ctx._source.'' @ es_path q @ '' = '' @ v @ ''}''
              else ''ctx._source.'' @ es_path q @ '' = '' @ v @ '';'')"
    by (simp add: add_statement_def)
  have pinR: "remove_statement q =
             (if index q \<noteq> None
              then ''def '' @ variable_name q @ '' = ctx._source'' @ es_location q
                   @ ''.remove('' @ fmt_int (index q) @ '');''
              else ''def '' @ variable_name q @ '' = ctx._source'' @ es_nest q
                   @ ''.remove('' @ sq @ fmt_str (key q) @ sq @ '');'')"
    by (simp add: remove_statement_def)
  from Ain pass pinA pinR show ?thesis unfolding A_def by (intro conjI)
qed

theorem C5_copy_semantics_witness:
  "script_loop demo_path demo_display [PatchMoveCopy ''copy'' ''a.c'' ''a.b''] ([] @ 0 # [])
      ([], [], None)
     = Inr ([''if (!ctx._source.containsKey('a')){Debug.explain('a does not exist');}'',
             ''if (!ctx._source.a.containsKey('b')){Debug.explain('b  does not exist in a');}'',
             ''ctx._source.a.c = ctx._source.a.b;''],
            [],
            Some (concat
             [''if (!ctx._source.containsKey('a')){Debug.explain('a does not exist');}'',
              ''if (!ctx._source.a.containsKey('b')){Debug.explain('b  does not exist in a');}'',
              ''ctx._source.a.c = ctx._source.a.b;'']))
   \<and> add_statement ''copy'' (demo_path ''a.c'') (''ctx._source.'' @ es_path (demo_path ''a.b''))
       \<in> set [''if (!ctx._source.containsKey('a')){Debug.explain('a does not exist');}'',
              ''if (!ctx._source.a.containsKey('b')){Debug.explain('b  does not exist in a');}'',
              ''ctx._source.a.c = ctx._source.a.b;'']"
proof -
  let ?h = "[PatchMoveCopy ''copy'' ''a.c'' ''a.b'']"
  let ?cs = "[''if (!ctx._source.containsKey('a')){Debug.explain('a does not exist');}'',
              ''if (!ctx._source.a.containsKey('b')){Debug.explain('b  does not exist in a');}'',
              ''ctx._source.a.c = ctx._source.a.b;'']"
  have a1: "script_loop demo_path demo_display ?h [] ([], [], None) = Inr ([], [], None)"
    by simp
  have a2: "script_loop demo_path demo_display ?h ([] @ 0 # []) ([], [], None)
              = Inr (?cs, [], Some (concat ?cs))"
    by code_simp
  have a3: "?h ! 0 = PatchMoveCopy ''copy'' ''a.c'' ''a.b''" by simp
  note inst = C5_copy_semantics [OF a1 a2 a3, THEN conjunct1]
  from a2 inst show ?thesis by (intro conjI)
qed




text \<open>
  C7: for every merge document and every store, the operations \<open>merge_to_operations\<close>
  returns, read from the store it leaves, are the flat list \<open>merge_spec\<close> describes: in
  iteration order and depth first, a remove operation for a null value, the operations of
  a nested mapping with their paths prefixed by the key and a dot, an add operation
  carrying the value for anything else. The empty mapping gives the empty list, and the
  function has no failing branch.
\<close>

theorem C7_merge_to_operations:
  "map ((!) (snd (merge_to_operations h data))) (fst (merge_to_operations h data))
     = merge_spec data
   \<and> merge_to_operations h [] = ([], h)"
  using merge_loop_inv [of data "[]" h]
  by (auto simp: merge_to_operations_def merge_inv_def)

theorem C7_merge_to_operations_example:
  "map ((!) (snd (merge_to_operations [] [(''a'', JDict [(''b'', JInt 1), (''c'', JNull)])])))
     (fst (merge_to_operations [] [(''a'', JDict [(''b'', JInt 1), (''c'', JNull)])]))
   = [PatchAddReplaceTest ''add'' ''a.b'' (JInt 1), PatchRemove ''remove'' ''a.c'']"
  using C7_merge_to_operations [of "[]" "[(''a'', JDict [(''b'', JInt 1), (''c'', JNull)])]"]
  by (simp add: prefixed_def)



text \<open>
  C9 as stated fails in its first half: patch operations are not immutable once
  constructed. The nested call of \<open>merge_to_operations\<close> constructs the operation at
  address 0 with path \<open>b\<close>; the inner loop of the outer call then assigns to the path of
  that same object, which ends as \<open>a.b\<close>.
\<close>

theorem C9_counterexample:
  "merge_to_operations [] [(''b'', JInt 1)]
     = ([0], [PatchAddReplaceTest ''add'' ''b'' (JInt 1)])
   \<and> prefix_loop ''a'' [0] [] [PatchAddReplaceTest ''add'' ''b'' (JInt 1)]
     = ([0], [PatchAddReplaceTest ''add'' ''a.b'' (JInt 1)])
   \<and> merge_to_operations [] [(''a'', JDict [(''b'', JInt 1)])]
     = ([0], [PatchAddReplaceTest ''add'' ''a.b'' (JInt 1)])"
  by (simp add: merge_to_operations_def alloc_def)

text \<open>
  C9 as amended: \<open>operations_to_script\<close> never mutates its input. For every store and
  every operation list, whether the call returns a script or raises, the store after the
  call is the store before it, so every field of every operation is unchanged (the list
  itself is only iterated).
\<close>

theorem C9_operations_to_script_frame:
  "snd (operations_to_script EP jv h operations) = h"
  by (simp add: operations_to_script_def split: sum.splits option.splits prod.splits)

text \<open>
  C10, on the store that holds the merge document: whenever \<open>merge_to_operations\<close>
  returns, every object that was in the store before the call (the mapping passed in,
  every nested mapping and every list among them) is in it unchanged, every returned
  operation is a new object, and whatever document a value stood for before the call it
  stands for after it. For a mapping that stands for a document, with fuel for its depth,
  the call does return, and the mapping is the same object standing for the same document.
\<close>

theorem C10_merge_frame:
  "(merge_to_operations_h n H a = Some (refs, H') \<longrightarrow>
      length H \<le> length H' \<and> (\<forall>b<length H. H' ! b = H ! b)
      \<and> (\<forall>r\<in>set refs. length H \<le> r \<and> r < length H')
      \<and> (\<forall>m v j. read_val m H v = Some j \<longrightarrow> read_val m H' v = Some j))
   \<and> (read_val (Suc n) H (VRef a) = Some (JDict data) \<longrightarrow>
        (\<exists>refs H'. merge_to_operations_h n H a = Some (refs, H')
           \<and> H' ! a = H ! a \<and> read_val (Suc n) H' (VRef a) = Some (JDict data)))"
proof -
  have part1: "length H \<le> length H' \<and> (\<forall>b<length H. H' ! b = H ! b)
      \<and> (\<forall>r\<in>set refs. length H \<le> r \<and> r < length H')
      \<and> (\<forall>m v j. read_val m H v = Some j \<longrightarrow> read_val m H' v = Some j)"
    if r: "merge_to_operations_h n H a = Some (refs, H')" for refs H'
  proof -
    from r have "merge_loop_h n (dict_items H (VRef a)) [] H = Some (refs, H')"
      by (auto simp: merge_to_operations_h_def split: if_splits)
    from merge_loop_h_frame [OF this] have f: "frame H H'"
      and n: "\<forall>r\<in>set refs. length H \<le> r \<and> r < length H'" by auto
    from f have "\<forall>m v j. read_val m H v = Some j \<longrightarrow> read_val m H' v = Some j"
      using read_val_frame by blast
    with f n show ?thesis by (simp add: frame_def)
  qed
  have part2: "\<exists>refs H'. merge_to_operations_h n H a = Some (refs, H')
           \<and> H' ! a = H ! a \<and> read_val (Suc n) H' (VRef a) = Some (JDict data)"
    if rd: "read_val (Suc n) H (VRef a) = Some (JDict data)"
  proof -
    from rd have a: "a < length H" by (auto split: if_splits)
    from rd a have d: "is_dict H (VRef a)"
      by (cases "H ! a") (auto simp: is_dict_def)
    from rd have "read_val (Suc n) H (VRef a) \<noteq> None" by simp
    from read_val_items [OF this d]
    have "\<forall>kv\<in>set (dict_items H (VRef a)). read_val n H (snd kv) \<noteq> None" .
    from merge_loop_h_returns [OF this, of "[]"] obtain refs H' where
      "merge_loop_h n (dict_items H (VRef a)) [] H = Some (refs, H')" by auto
    with d have m: "merge_to_operations_h n H a = Some (refs, H')"
      by (simp add: merge_to_operations_h_def)
    from part1 [OF m] have fr: "\<forall>b<length H. H' ! b = H ! b"
      and rv: "\<forall>m v j. read_val m H v = Some j \<longrightarrow> read_val m H' v = Some j"
      by blast+
    from fr a have same: "H' ! a = H ! a" by blast
    from rv rd have "read_val (Suc n) H' (VRef a) = Some (JDict data)" by blast
    with m same show ?thesis by blast
  qed
  from part1 part2 show ?thesis by blast
qed

theorem C10_merge_frame_witness:
  "read_val 2 [ODict [(''b'', VInt 1), (''c'', VNone)], ODict [(''a'', VRef 0)]] (VRef 1)
     = Some (JDict [(''a'', JDict [(''b'', JInt 1), (''c'', JNull)])])
   \<and> merge_to_operations_h 1 [ODict [(''b'', VInt 1), (''c'', VNone)], ODict [(''a'', VRef 0)]] 1
     = Some ([2, 3],
             [ODict [(''b'', VInt 1), (''c'', VNone)], ODict [(''a'', VRef 0)],
              OAddReplaceTest ''add'' ''a.b'' (VInt 1), ORemove ''remove'' ''a.c''])
   \<and> read_val 2 [ODict [(''b'', VInt 1), (''c'', VNone)], ODict [(''a'', VRef 0)],
                 OAddReplaceTest ''add'' ''a.b'' (VInt 1), ORemove ''remove'' ''a.c''] (VRef 1)
     = Some (JDict [(''a'', JDict [(''b'', JInt 1), (''c'', JNull)])])"
proof -
  let ?H = "[ODict [(''b'', VInt 1), (''c'', VNone)], ODict [(''a'', VRef 0)]]"
  let ?H' = "[ODict [(''b'', VInt 1), (''c'', VNone)], ODict [(''a'', VRef 0)],
              OAddReplaceTest ''add'' ''a.b'' (VInt 1), ORemove ''remove'' ''a.c'']"
  let ?d = "[(''a'', JDict [(''b'', JInt 1), (''c'', JNull)])]"
  have rd: "read_val (Suc 1) ?H (VRef 1) = Some (JDict ?d)" by code_simp
  have m: "merge_to_operations_h 1 ?H 1 = Some ([2, 3], ?H')" by code_simp
  note inst = C10_merge_frame [of 1 ?H 1 "[2, 3]" ?H' ?d]
  from inst [THEN conjunct1, THEN mp, OF m]
  have "\<forall>m v j. read_val m ?H v = Some j \<longrightarrow> read_val m ?H' v = Some j" by blast
  from this [THEN spec, THEN spec, THEN spec, THEN mp, OF rd]
  have r': "read_val (Suc 1) ?H' (VRef 1) = Some (JDict ?d)" .
  have two: "Suc 1 = 2" by simp
  from rd m r' show ?thesis unfolding two by (intro conjI)
qed

end
